theory Spec2Isabelle
  imports
    Main
    "HOL-Library.Word"
    "HOL-Library.Char_ord"
    "HOL-Library.List_Lexorder"
begin

section \<open>Local backup coordination: the file registry and the archive suffix allocator\<close>

text \<open>
  A shallow embedding of \<^verbatim>\<open>src/Backups/BackupCoordinationLocal.cpp\<close>.
  The object's members become the fields of a record that every method takes and, when it
  mutates, returns. The mutex only serialises the methods, so each method is one atomic
  function on the record. Strings are byte strings, compared as \<^verbatim>\<open>std::string\<close> compares
  them: lexicographically on unsigned bytes (the orders of \<open>Char_ord\<close> and \<open>List_Lexorder\<close>).
\<close>

subsection \<open>Data\<close>

type_synonym UInt64 = "64 word"
type_synonym UInt128 = "128 word"
type_synonym SizeAndChecksum = "UInt64 \<times> UInt128"

text \<open>
  Modelled from the spec: the declaration of \<^verbatim>\<open>IBackupCoordination::FileInfo\<close> is in a header
  that is not part of the sources at hand. The fields are the ones of the spec's FileRecord
  (file name, size, checksum, base size, archive suffix); the field \<^verbatim>\<open>size\<close> is called
  \<open>size_bytes\<close> here. A default-constructed \<^verbatim>\<open>FileInfo\<close> has empty strings and zero numbers.
\<close>

record FileInfo =
  file_name :: string
  size_bytes :: UInt64
  checksum :: UInt128
  base_size :: UInt64
  archive_suffix :: string

definition default_FileInfo :: FileInfo where
  "default_FileInfo =
     \<lparr>file_name = [], size_bytes = 0, checksum = 0, base_size = 0, archive_suffix = []\<rparr>"

text \<open>
  Modelled from the spec: the members of \<^verbatim>\<open>BackupCoordinationLocal\<close> are declared in its
  header, which is not part of the sources at hand; their types are read off the way the
  methods use them. \<open>file_names\<close> is an ordered map (the methods call \<^verbatim>\<open>lower_bound\<close> on it)
  that \<^verbatim>\<open>listFiles\<close> and \<^verbatim>\<open>getAllFileInfos\<close> walk in key order: an association list kept
  in increasing key order. \<open>file_infos\<close> is only ever read and written by key: a partial
  map. \<open>current_archive_suffix\<close> is the counter that the spec bounds by the range of its
  numeric type: an unsigned 64-bit integer, as the sizes are, starting at zero, whose
  increment wraps. The replicated part tracker is a class of its own, outside the sources
  at hand; its state is the type parameter \<open>'r\<close>.
\<close>

record 'r BackupCoordinationLocal =
  replicated_part_names :: 'r
  file_names :: "(string \<times> SizeAndChecksum) list"
  file_infos :: "SizeAndChecksum \<rightharpoonup> FileInfo"
  archive_suffixes :: "string list"
  current_archive_suffix :: UInt64

definition BackupCoordinationLocal_init :: "'r \<Rightarrow> 'r BackupCoordinationLocal" where
  "BackupCoordinationLocal_init r =
     \<lparr>replicated_part_names = r, file_names = [], file_infos = Map.empty,
      archive_suffixes = [], current_archive_suffix = 0\<rparr>"

text \<open>The only exception the methods raise themselves: \<^verbatim>\<open>std::map::at\<close> on a missing key.\<close>

datatype error = OutOfRange

subsection \<open>The containers' operations\<close>

text \<open>
  \<^verbatim>\<open>std::map::emplace\<close>: the entry is inserted at its place in key order unless the key is
  present, in which case the map is left as it is.
\<close>

fun map_emplace :: "'k::linorder \<Rightarrow> 'v \<Rightarrow> ('k \<times> 'v) list \<Rightarrow> ('k \<times> 'v) list" where
  "map_emplace k v [] = [(k, v)]"
| "map_emplace k v ((k', v') # rest) =
     (if k = k' then (k', v') # rest
      else if k < k' then (k, v) # (k', v') # rest
      else (k', v') # map_emplace k v rest)"

text \<open>\<^verbatim>\<open>std::map::lower_bound\<close>: the entries from the first key that is not less than \<open>k\<close>.\<close>

definition lower_bound :: "'k::linorder \<Rightarrow> ('k \<times> 'v) list \<Rightarrow> ('k \<times> 'v) list" where
  "lower_bound k entries = dropWhile (\<lambda>e. fst e < k) entries"

text \<open>\<^verbatim>\<open>std::map::find\<close> on the ordered map; \<open>None\<close> is \<^verbatim>\<open>end()\<close>.\<close>

definition map_find :: "('k \<times> 'v) list \<Rightarrow> 'k \<Rightarrow> 'v option" where
  "map_find entries k = map_of entries k"

text \<open>\<^verbatim>\<open>try_emplace\<close> on the content index: the new map and whether the entry was inserted.\<close>

definition try_emplace :: "('k \<rightharpoonup> 'v) \<Rightarrow> 'k \<Rightarrow> 'v \<Rightarrow> ('k \<rightharpoonup> 'v) \<times> bool" where
  "try_emplace m k v = (case m k of None \<Rightarrow> (m(k \<mapsto> v), True) | Some _ \<Rightarrow> (m, False))"

text \<open>\<^verbatim>\<open>at\<close>: the value stored under the key, or the exception.\<close>

definition map_at :: "('k \<rightharpoonup> 'v) \<Rightarrow> 'k \<Rightarrow> error + 'v" where
  "map_at m k = (case m k of None \<Rightarrow> Inl OutOfRange | Some v \<Rightarrow> Inr v)"

subsection \<open>String operations\<close>

text \<open>\<^verbatim>\<open>name.starts_with(prefix)\<close>.\<close>

definition starts_with :: "string \<Rightarrow> string \<Rightarrow> bool" where
  "starts_with name pre = (take (length pre) name = pre)"

text \<open>
  \<^verbatim>\<open>s.find(t, pos)\<close>: the least position from \<open>pos\<close> on at which \<open>t\<close> occurs in \<open>s\<close>;
  \<open>None\<close> is \<^verbatim>\<open>npos\<close>.
\<close>

definition str_find :: "string \<Rightarrow> string \<Rightarrow> nat \<Rightarrow> nat option" where
  "str_find s t pos =
     List.find (\<lambda>i. take (length t) (drop i s) = t) [pos ..< Suc (length s)]"

text \<open>
  \<^verbatim>\<open>s.substr(start_pos, end_pos - start_pos)\<close> as \<^verbatim>\<open>listFiles\<close> calls it, with
  \<open>start_pos \<le> length s\<close>. When \<open>end_pos\<close> is \<^verbatim>\<open>npos\<close> the count exceeds what is left of the
  string and the result runs to its end.
\<close>

definition substr :: "string \<Rightarrow> nat \<Rightarrow> nat option \<Rightarrow> string" where
  "substr s start_pos end_pos =
     (case end_pos of
        None \<Rightarrow> drop start_pos s
      | Some e \<Rightarrow> take (e - start_pos) (drop start_pos s))"

subsection \<open>Preparation\<close>

text \<open>
  \<^verbatim>\<open>finishPreparing\<close> returns at once when the error message is not empty, and calls the
  tracker's \<^verbatim>\<open>preparePartNames\<close> otherwise. That method is a parameter: it maps the tracker's
  state to how the call ended (\<open>Inr ()\<close> is a normal return) and the tracker's new state.
  The trace message has no effect on the object.
\<close>

definition finishPreparing ::
  "('r \<Rightarrow> ('e + unit) \<times> 'r) \<Rightarrow> string \<Rightarrow> string \<Rightarrow> 'r BackupCoordinationLocal
     \<Rightarrow> ('e + unit) \<times> 'r BackupCoordinationLocal" where
  "finishPreparing preparePartNames host_id error_message st =
     (if error_message \<noteq> [] then (Inr (), st)
      else (case preparePartNames (replicated_part_names st) of
              (res, r') \<Rightarrow> (res, st\<lparr>replicated_part_names := r'\<rparr>)))"

text \<open>\<^verbatim>\<open>waitForAllHostsPrepared\<close> has an empty body: it returns and changes nothing.\<close>

definition waitForAllHostsPrepared ::
  "string list \<Rightarrow> nat \<Rightarrow> 'r BackupCoordinationLocal \<Rightarrow> unit \<times> 'r BackupCoordinationLocal" where
  "waitForAllHostsPrepared host_ids timeout st = ((), st)"

subsection \<open>The file registry\<close>

definition addFileInfo ::
  "FileInfo \<Rightarrow> 'r BackupCoordinationLocal \<Rightarrow> bool \<times> 'r BackupCoordinationLocal" where
  "addFileInfo file_info st =
     (let st1 = st\<lparr>file_names :=
                     map_emplace (file_name file_info)
                       (size_bytes file_info, checksum file_info) (file_names st)\<rparr>
      in if size_bytes file_info = 0 then (False, st1)
         else
           (case try_emplace (file_infos st1)
                   (size_bytes file_info, checksum file_info) file_info of
              (infos', inserted_file_info) \<Rightarrow>
                (inserted_file_info \<and> base_size file_info < size_bytes file_info,
                 st1\<lparr>file_infos := infos'\<rparr>)))"

definition updateFileInfo ::
  "FileInfo \<Rightarrow> 'r BackupCoordinationLocal \<Rightarrow> (error + unit) \<times> 'r BackupCoordinationLocal" where
  "updateFileInfo file_info st =
     (if size_bytes file_info = 0 then (Inr (), st)
      else
        (case map_at (file_infos st) (size_bytes file_info, checksum file_info) of
           Inl e \<Rightarrow> (Inl e, st)
         | Inr dest \<Rightarrow>
             (Inr (),
              st\<lparr>file_infos := (file_infos st)
                   ((size_bytes file_info, checksum file_info) \<mapsto>
                      dest\<lparr>archive_suffix := archive_suffix file_info\<rparr>)\<rparr>)))"

text \<open>
  What the loop of \<^verbatim>\<open>getAllFileInfos\<close> and \<^verbatim>\<open>getFileInfo\<close> by name both do: the record of
  a name, which is the stored content record when the size is not zero and a default record
  otherwise, under the name asked for.
\<close>

definition info_of_name ::
  "(SizeAndChecksum \<rightharpoonup> FileInfo) \<Rightarrow> string \<Rightarrow> SizeAndChecksum \<Rightarrow> error + FileInfo" where
  "info_of_name infos name size_and_checksum =
     (if fst size_and_checksum \<noteq> 0 then
        (case map_at infos size_and_checksum of
           Inl e \<Rightarrow> Inl e
         | Inr info \<Rightarrow> Inr (info\<lparr>file_name := name\<rparr>))
      else Inr (default_FileInfo\<lparr>file_name := name\<rparr>))"

fun getAllFileInfos_loop ::
  "(SizeAndChecksum \<rightharpoonup> FileInfo) \<Rightarrow> (string \<times> SizeAndChecksum) list \<Rightarrow> FileInfo list
     \<Rightarrow> error + FileInfo list" where
  "getAllFileInfos_loop infos [] res = Inr res"
| "getAllFileInfos_loop infos ((name, size_and_checksum) # rest) res =
     (case info_of_name infos name size_and_checksum of
        Inl e \<Rightarrow> Inl e
      | Inr info \<Rightarrow> getAllFileInfos_loop infos rest (res @ [info]))"

definition getAllFileInfos :: "'r BackupCoordinationLocal \<Rightarrow> error + FileInfo list" where
  "getAllFileInfos st = getAllFileInfos_loop (file_infos st) (file_names st) []"

text \<open>
  The loop of \<^verbatim>\<open>listFiles\<close>: \<open>break\<close> at the first name that does not start with the prefix,
  \<open>continue\<close> when the new element equals the last one pushed.
\<close>

fun listFiles_loop ::
  "string \<Rightarrow> string \<Rightarrow> (string \<times> SizeAndChecksum) list \<Rightarrow> string list \<Rightarrow> string list" where
  "listFiles_loop pre terminator [] elements = elements"
| "listFiles_loop pre terminator ((name, size_and_checksum) # rest) elements =
     (if \<not> starts_with name pre then elements
      else
        (let start_pos = length pre;
             end_pos = (if terminator \<noteq> [] then str_find name terminator start_pos else None);
             new_element = substr name start_pos end_pos
         in if elements \<noteq> [] \<and> last elements = new_element
            then listFiles_loop pre terminator rest elements
            else listFiles_loop pre terminator rest (elements @ [new_element])))"

definition listFiles :: "string \<Rightarrow> string \<Rightarrow> 'r BackupCoordinationLocal \<Rightarrow> string list" where
  "listFiles pre terminator st =
     listFiles_loop pre terminator (lower_bound pre (file_names st)) []"


definition getFileInfo_by_key :: "SizeAndChecksum \<Rightarrow> 'r BackupCoordinationLocal \<Rightarrow> FileInfo option" where
  "getFileInfo_by_key size_and_checksum st = file_infos st size_and_checksum"

definition getFileSizeAndChecksum :: "string \<Rightarrow> 'r BackupCoordinationLocal \<Rightarrow> SizeAndChecksum option" where
  "getFileSizeAndChecksum name st = map_find (file_names st) name"

subsection \<open>The archive suffix allocator\<close>

text \<open>
  \<^verbatim>\<open>fmt::format("{:03}", n)\<close> for an unsigned \<open>n\<close>: its decimal digits, with zeros in front
  up to a width of three.
\<close>

definition digit_char :: "nat \<Rightarrow> char" where
  "digit_char d = ''0123456789'' ! d"

function to_decimal :: "nat \<Rightarrow> string" where
  "to_decimal n =
     (if n < 10 then [digit_char n] else to_decimal (n div 10) @ [digit_char (n mod 10)])"
  by pat_completeness auto
termination
  by (relation "measure id") auto

definition format_03 :: "nat \<Rightarrow> string" where
  "format_03 n = replicate (3 - length (to_decimal n)) CHR ''0'' @ to_decimal n"

definition getNextArchiveSuffix ::
  "'r BackupCoordinationLocal \<Rightarrow> string \<times> 'r BackupCoordinationLocal" where
  "getNextArchiveSuffix st =
     (let st1 = st\<lparr>current_archive_suffix := current_archive_suffix st + 1\<rparr>;
          new_archive_suffix = format_03 (unat (current_archive_suffix st1))
      in (new_archive_suffix,
          st1\<lparr>archive_suffixes := archive_suffixes st1 @ [new_archive_suffix]\<rparr>))"

definition getAllArchiveSuffixes :: "'r BackupCoordinationLocal \<Rightarrow> string list" where
  "getAllArchiveSuffixes st = archive_suffixes st"

subsection \<open>Histories of calls\<close>

text \<open>
  The states the object can be in are the ones a history of calls of its mutating methods
  leaves behind, from the freshly constructed object on. A call that throws leaves the
  object as the method left it, and the object stays in use. \<open>TrackerCall f\<close> stands for
  any of the methods that touch nothing but the replicated part tracker
  (\<^verbatim>\<open>addReplicatedPartNames\<close>, \<^verbatim>\<open>addReplicatedTableDataPath\<close>, \<^verbatim>\<open>finishPreparing\<close>), with
  \<open>f\<close> its effect on the tracker.
\<close>

datatype 'r call =
    AddFile FileInfo
  | UpdateFile FileInfo
  | NextArchiveSuffix
  | TrackerCall "'r \<Rightarrow> 'r"

fun step :: "'r call \<Rightarrow> 'r BackupCoordinationLocal \<Rightarrow> 'r BackupCoordinationLocal" where
  "step (AddFile file_info) st = snd (addFileInfo file_info st)"
| "step (UpdateFile file_info) st = snd (updateFileInfo file_info st)"
| "step NextArchiveSuffix st = snd (getNextArchiveSuffix st)"
| "step (TrackerCall f) st = st\<lparr>replicated_part_names := f (replicated_part_names st)\<rparr>"

definition run :: "'r call list \<Rightarrow> 'r BackupCoordinationLocal \<Rightarrow> 'r BackupCoordinationLocal" where
  "run calls st = fold step calls st"

text \<open>The suffixes that the calls of \<^verbatim>\<open>getNextArchiveSuffix\<close> in a history return, in call order.\<close>

fun issued :: "'r call list \<Rightarrow> 'r BackupCoordinationLocal \<Rightarrow> string list" where
  "issued [] st = []"
| "issued (NextArchiveSuffix # calls) st =
     fst (getNextArchiveSuffix st) # issued calls (step NextArchiveSuffix st)"
| "issued (c # calls) st = issued calls (step c st)"

text \<open>How many calls of \<^verbatim>\<open>getNextArchiveSuffix\<close> a history has.\<close>

fun suffix_calls :: "'r call list \<Rightarrow> nat" where
  "suffix_calls [] = 0"
| "suffix_calls (NextArchiveSuffix # calls) = Suc (suffix_calls calls)"
| "suffix_calls (c # calls) = suffix_calls calls"

text \<open>The file names and the content keys that the calls of \<^verbatim>\<open>addFileInfo\<close> in a history pass.\<close>

fun registered_names :: "'r call list \<Rightarrow> string list" where
  "registered_names [] = []"
| "registered_names (AddFile file_info # calls) = file_name file_info # registered_names calls"
| "registered_names (c # calls) = registered_names calls"

definition key_of :: "FileInfo \<Rightarrow> SizeAndChecksum" where
  "key_of info = (size_bytes info, checksum info)"

fun registered_keys :: "'r call list \<Rightarrow> SizeAndChecksum list" where
  "registered_keys [] = []"
| "registered_keys (AddFile file_info # calls) =
     (if size_bytes file_info = 0 then registered_keys calls
      else key_of file_info # registered_keys calls)"
| "registered_keys (c # calls) = registered_keys calls"


subsection \<open>Notions of the specification\<close>

text \<open>
  What every reachable state satisfies: the name index is in strictly increasing key order,
  every name of a file that is not empty has its content record, and a content record is
  stored under its own size and checksum, which is not of size zero.
\<close>

definition registry_inv :: "'r BackupCoordinationLocal \<Rightarrow> bool" where
  "registry_inv st \<longleftrightarrow>
     sorted_wrt (<) (map fst (file_names st)) \<and>
     (\<forall>(name, k) \<in> set (file_names st). fst k \<noteq> 0 \<longrightarrow> file_infos st k \<noteq> None) \<and>
     (\<forall>k info. file_infos st k = Some info \<longrightarrow> key_of info = k \<and> fst k \<noteq> 0)"

text \<open>
  The part of a string before the first occurrence of a terminator, the whole string when
  the terminator does not occur; and the segment of a name between a prefix and the first
  terminator after it, to the end of the name when the terminator is empty or absent.
\<close>

fun before_first :: "string \<Rightarrow> string \<Rightarrow> string" where
  "before_first terminator [] = []"
| "before_first terminator (c # cs) =
     (if take (length terminator) (c # cs) = terminator then []
      else c # before_first terminator cs)"

definition path_segment :: "string \<Rightarrow> string \<Rightarrow> string \<Rightarrow> string" where
  "path_segment pre terminator name =
     (if terminator = [] then drop (length pre) name
      else before_first terminator (drop (length pre) name))"

text \<open>The entries of a dump that carry a given size and checksum.\<close>

definition entries_with_key :: "SizeAndChecksum \<Rightarrow> FileInfo list \<Rightarrow> FileInfo list" where
  "entries_with_key k infos = filter (\<lambda>info. key_of info = k) infos"

text \<open>The number that a string of decimal digits denotes.\<close>

definition digit_value :: "char \<Rightarrow> nat" where
  "digit_value c = of_char c - 48"

definition decimal_value :: "string \<Rightarrow> nat" where
  "decimal_value s = foldl (\<lambda>v c. 10 * v + digit_value c) 0 s"

section \<open>Properties of the containers\<close>

lemma map_emplace_keys: "set (map fst (map_emplace k v xs)) = insert k (set (map fst xs))"
proof (induction xs)
  case Nil
  then show ?case by simp
next
  case (Cons e xs)
  obtain k' v' where e: "e = (k', v')" by (cases e)
  from Cons.IH show ?case unfolding e by (cases "k = k'"; cases "k < k'") auto
qed

lemma map_emplace_sorted:
  "sorted_wrt (<) (map fst xs) \<Longrightarrow> sorted_wrt (<) (map fst (map_emplace k v xs))"
proof (induction xs)
  case Nil
  then show ?case by simp
next
  case (Cons e xs)
  obtain k' v' where e: "e = (k', v')" by (cases e)
  from Cons.prems have tl: "sorted_wrt (<) (map fst xs)" and hd: "\<forall>y \<in> set (map fst xs). k' < y"
    by (auto simp: e)
  show ?case
  proof (cases "k = k'")
    case True
    with Cons.prems show ?thesis by (simp add: e)
  next
    case neq: False
    show ?thesis
    proof (cases "k < k'")
      case True
      with hd tl neq show ?thesis by (auto simp: e)
    next
      case False
      with neq have "k' < k" by simp
      with hd have "\<forall>y \<in> set (map fst (map_emplace k v xs)). k' < y"
        unfolding map_emplace_keys by simp
      with Cons.IH[OF tl] neq False show ?thesis by (simp add: e)
    qed
  qed
qed

lemma map_emplace_present:
  "sorted_wrt (<) (map fst xs) \<Longrightarrow> k \<in> set (map fst xs) \<Longrightarrow> map_emplace k v xs = xs"
proof (induction xs)
  case Nil
  then show ?case by simp
next
  case (Cons e xs)
  obtain k' v' where e: "e = (k', v')" by (cases e)
  from Cons.prems have tl: "sorted_wrt (<) (map fst xs)" and hd: "\<forall>y \<in> set (map fst xs). k' < y"
    by (auto simp: e)
  show ?case
  proof (cases "k = k'")
    case True
    then show ?thesis by (simp add: e)
  next
    case False
    with Cons.prems have mem: "k \<in> set (map fst xs)" by (auto simp: e)
    with hd have "k' < k" by blast
    then have "\<not> k < k'" by simp
    with False Cons.IH[OF tl mem] show ?thesis by (simp add: e)
  qed
qed



lemma map_emplace_set: "set (map_emplace k v xs) \<subseteq> insert (k, v) (set xs)"
proof (induction xs)
  case Nil
  then show ?case by simp
next
  case (Cons e xs)
  obtain k' v' where e: "e = (k', v')" by (cases e)
  from Cons.IH show ?case unfolding e by (cases "k = k'"; cases "k < k'") auto
qed

section \<open>What each method changes\<close>

lemma addFileInfo_file_names:
  "file_names (snd (addFileInfo fi st)) = map_emplace (file_name fi) (key_of fi) (file_names st)"
  by (simp add: addFileInfo_def Let_def key_of_def try_emplace_def split: option.split)

lemma addFileInfo_file_infos:
  "file_infos (snd (addFileInfo fi st)) =
     (if size_bytes fi \<noteq> 0 \<and> file_infos st (key_of fi) = None
      then (file_infos st)(key_of fi \<mapsto> fi) else file_infos st)"
  by (simp add: addFileInfo_def Let_def key_of_def try_emplace_def split: option.split)

lemma addFileInfo_result:
  "fst (addFileInfo fi st) \<longleftrightarrow>
     size_bytes fi \<noteq> 0 \<and> file_infos st (key_of fi) = None \<and> base_size fi < size_bytes fi"
  by (simp add: addFileInfo_def Let_def key_of_def try_emplace_def split: option.split)

lemma addFileInfo_frame:
  "archive_suffixes (snd (addFileInfo fi st)) = archive_suffixes st"
  "current_archive_suffix (snd (addFileInfo fi st)) = current_archive_suffix st"
  "replicated_part_names (snd (addFileInfo fi st)) = replicated_part_names st"
  by (simp_all add: addFileInfo_def Let_def try_emplace_def split: option.split)

lemma updateFileInfo_file_infos:
  "file_infos (snd (updateFileInfo fi st)) =
     (case file_infos st (key_of fi) of
        Some dest \<Rightarrow>
          if size_bytes fi = 0 then file_infos st
          else (file_infos st)(key_of fi \<mapsto> dest\<lparr>archive_suffix := archive_suffix fi\<rparr>)
      | None \<Rightarrow> file_infos st)"
  by (simp add: updateFileInfo_def key_of_def map_at_def split: option.split)

lemma updateFileInfo_frame:
  "file_names (snd (updateFileInfo fi st)) = file_names st"
  "archive_suffixes (snd (updateFileInfo fi st)) = archive_suffixes st"
  "current_archive_suffix (snd (updateFileInfo fi st)) = current_archive_suffix st"
  "replicated_part_names (snd (updateFileInfo fi st)) = replicated_part_names st"
  by (simp_all add: updateFileInfo_def map_at_def split: option.split)

lemma getNextArchiveSuffix_frame:
  "file_names (snd (getNextArchiveSuffix st)) = file_names st"
  "file_infos (snd (getNextArchiveSuffix st)) = file_infos st"
  "replicated_part_names (snd (getNextArchiveSuffix st)) = replicated_part_names st"
  by (simp_all add: getNextArchiveSuffix_def Let_def)

lemma registry_inv_init: "registry_inv (BackupCoordinationLocal_init r)"
  by (simp add: registry_inv_def BackupCoordinationLocal_init_def)

lemma registry_inv_addFileInfo:
  assumes "registry_inv st"
  shows "registry_inv (snd (addFileInfo fi st))"
proof -
  let ?st' = "snd (addFileInfo fi st)"
  from assms have s: "sorted_wrt (<) (map fst (file_names st))"
    and p: "\<And>name k. (name, k) \<in> set (file_names st) \<Longrightarrow> fst k \<noteq> 0 \<Longrightarrow> file_infos st k \<noteq> None"
    and q: "\<And>k info. file_infos st k = Some info \<Longrightarrow> key_of info = k \<and> fst k \<noteq> 0"
    unfolding registry_inv_def by blast+
  have mono: "file_infos ?st' k \<noteq> None" if "file_infos st k \<noteq> None" for k
    using that unfolding addFileInfo_file_infos by simp
  have new: "file_infos ?st' (key_of fi) \<noteq> None" if "size_bytes fi \<noteq> 0"
    using that unfolding addFileInfo_file_infos by simp
  have 1: "sorted_wrt (<) (map fst (file_names ?st'))"
    using s by (simp add: addFileInfo_file_names map_emplace_sorted)
  have 2: "file_infos ?st' k \<noteq> None" if h: "(name, k) \<in> set (file_names ?st')" "fst k \<noteq> 0" for name k
  proof -
    from h(1) have "(name, k) \<in> insert (file_name fi, key_of fi) (set (file_names st))"
      unfolding addFileInfo_file_names using map_emplace_set by (rule subsetD[rotated])
    then consider "k = key_of fi" | "(name, k) \<in> set (file_names st)" by auto
    then show ?thesis
    proof cases
      case 1
      with h(2) have "size_bytes fi \<noteq> 0" by (simp add: key_of_def)
      with 1 new show ?thesis by simp
    next
      case 2
      from p[OF 2 h(2)] show ?thesis by (rule mono)
    qed
  qed
  have 3: "key_of info = k \<and> fst k \<noteq> 0" if h: "file_infos ?st' k = Some info" for k info
  proof (cases "size_bytes fi \<noteq> 0 \<and> file_infos st (key_of fi) = None \<and> k = key_of fi")
    case True
    with h have "info = fi" unfolding addFileInfo_file_infos by simp
    with True show ?thesis by (simp add: key_of_def)
  next
    case False
    with h have "file_infos st k = Some info"
      unfolding addFileInfo_file_infos by (simp split: if_splits)
    then show ?thesis by (rule q)
  qed
  from 1 2 3 show ?thesis unfolding registry_inv_def by blast
qed

lemma updateFileInfo_unchanged:
  "size_bytes fi = 0 \<or> file_infos st (key_of fi) = None \<Longrightarrow> snd (updateFileInfo fi st) = st"
  by (auto simp: updateFileInfo_def key_of_def map_at_def)

lemma registry_inv_updateFileInfo:
  assumes "registry_inv st"
  shows "registry_inv (snd (updateFileInfo fi st))"
proof (cases "size_bytes fi = 0 \<or> file_infos st (key_of fi) = None")
  case True
  with assms show ?thesis by (simp add: updateFileInfo_unchanged)
next
  case False
  then obtain dest where dest: "file_infos st (key_of fi) = Some dest" and nz: "size_bytes fi \<noteq> 0"
    by auto
  let ?st' = "snd (updateFileInfo fi st)"
  have infos: "file_infos ?st' = (file_infos st)(key_of fi \<mapsto> dest\<lparr>archive_suffix := archive_suffix fi\<rparr>)"
    using dest nz by (simp add: updateFileInfo_file_infos)
  from assms have s: "sorted_wrt (<) (map fst (file_names st))"
    and p: "\<And>name k. (name, k) \<in> set (file_names st) \<Longrightarrow> fst k \<noteq> 0 \<Longrightarrow> file_infos st k \<noteq> None"
    and q: "\<And>k info. file_infos st k = Some info \<Longrightarrow> key_of info = k \<and> fst k \<noteq> 0"
    by (auto simp: registry_inv_def)
  have 2: "file_infos ?st' k \<noteq> None" if "(name, k) \<in> set (file_names ?st')" "fst k \<noteq> 0" for name k
  proof -
    from that have "file_infos st k \<noteq> None" by (simp add: updateFileInfo_frame p)
    then show ?thesis unfolding infos by simp
  qed
  have 3: "key_of info = k \<and> fst k \<noteq> 0" if h: "file_infos ?st' k = Some info" for k info
  proof (cases "k = key_of fi")
    case True
    with h have "info = dest\<lparr>archive_suffix := archive_suffix fi\<rparr>" unfolding infos by simp
    then have "key_of info = key_of dest" by (simp add: key_of_def)
    with q[OF dest] True show ?thesis by simp
  next
    case False
    with h have "file_infos st k = Some info" unfolding infos by simp
    then show ?thesis by (rule q)
  qed
  have 1: "sorted_wrt (<) (map fst (file_names ?st'))" using s by (simp add: updateFileInfo_frame)
  from 1 2 3 show ?thesis unfolding registry_inv_def by blast
qed

lemma registry_inv_step: "registry_inv st \<Longrightarrow> registry_inv (step c st)"
proof (cases c)
  case (AddFile fi)
  assume "registry_inv st"
  then show ?thesis unfolding AddFile step.simps by (rule registry_inv_addFileInfo)
next
  case (UpdateFile fi)
  assume "registry_inv st"
  then show ?thesis unfolding UpdateFile step.simps by (rule registry_inv_updateFileInfo)
next
  case NextArchiveSuffix
  assume "registry_inv st"
  then show ?thesis
    by (simp add: NextArchiveSuffix registry_inv_def getNextArchiveSuffix_frame)
next
  case (TrackerCall f)
  assume "registry_inv st"
  then show ?thesis by (simp add: TrackerCall registry_inv_def)
qed

lemma registry_inv_run: "registry_inv st \<Longrightarrow> registry_inv (run calls st)"
  unfolding run_def by (induction calls arbitrary: st) (simp_all add: registry_inv_step)

lemma registry_inv_reachable: "registry_inv (run calls (BackupCoordinationLocal_init r))"
  by (rule registry_inv_run[OF registry_inv_init])

section \<open>Reachable states\<close>

lemma run_Nil: "run [] st = st"
  by (simp add: run_def)

lemma run_Cons: "run (c # calls) st = run calls (step c st)"
  by (simp add: run_def)

lemma step_dom_file_infos:
  "dom (file_infos (step c st)) = dom (file_infos st) \<union> set (registered_keys [c])"
proof (cases c)
  case (AddFile fi)
  then show ?thesis by (auto simp: addFileInfo_file_infos key_of_def)
next
  case (UpdateFile fi)
  then show ?thesis
    by (cases "file_infos st (key_of fi)") (auto simp: updateFileInfo_file_infos)
next
  case NextArchiveSuffix
  then show ?thesis by (simp add: getNextArchiveSuffix_frame)
next
  case (TrackerCall f)
  then show ?thesis by simp
qed

lemma registered_keys_Cons:
  "set (registered_keys (c # calls)) = set (registered_keys [c]) \<union> set (registered_keys calls)"
  by (cases c) auto

lemma run_dom_file_infos:
  "dom (file_infos (run calls st)) = dom (file_infos st) \<union> set (registered_keys calls)"
proof (induction calls arbitrary: st)
  case Nil
  then show ?case by (simp add: run_Nil)
next
  case (Cons c calls)
  show ?case
    unfolding run_Cons Cons.IH step_dom_file_infos registered_keys_Cons[of c calls]
    by (simp add: Un_assoc)
qed

lemma reachable_dom_file_infos:
  "dom (file_infos (run calls (BackupCoordinationLocal_init r))) = set (registered_keys calls)"
  unfolding run_dom_file_infos by (simp add: BackupCoordinationLocal_init_def)

lemma step_names:
  "set (map fst (file_names (step c st))) = set (map fst (file_names st)) \<union> set (registered_names [c])"
proof (cases c)
  case (AddFile fi)
  then show ?thesis using map_emplace_keys[of "file_name fi" "key_of fi" "file_names st"]
    by (simp add: addFileInfo_file_names)
next
  case (UpdateFile fi)
  then show ?thesis by (simp add: updateFileInfo_frame)
next
  case NextArchiveSuffix
  then show ?thesis by (simp add: getNextArchiveSuffix_frame)
next
  case (TrackerCall f)
  then show ?thesis by simp
qed

lemma registered_names_Cons:
  "set (registered_names (c # calls)) = set (registered_names [c]) \<union> set (registered_names calls)"
  by (cases c) auto

lemma run_names:
  "set (map fst (file_names (run calls st))) = set (map fst (file_names st)) \<union> set (registered_names calls)"
proof (induction calls arbitrary: st)
  case Nil
  then show ?case by (simp add: run_Nil)
next
  case (Cons c calls)
  show ?case
    unfolding run_Cons Cons.IH step_names registered_names_Cons[of c calls]
    by (simp add: Un_assoc)
qed

lemma reachable_names:
  "set (map fst (file_names (run calls (BackupCoordinationLocal_init r)))) = set (registered_names calls)"
  unfolding run_names by (simp add: BackupCoordinationLocal_init_def)

lemma reachable_sorted:
  "sorted_wrt (<) (map fst (file_names (run calls (BackupCoordinationLocal_init r))))"
  using registry_inv_reachable[of calls r] unfolding registry_inv_def by blast

lemma reachable_key_of:
  "file_infos (run calls (BackupCoordinationLocal_init r)) k = Some info \<Longrightarrow> key_of info = k \<and> fst k \<noteq> 0"
  using registry_inv_reachable[of calls r] unfolding registry_inv_def by blast

lemma reachable_has_info:
  "(name, k) \<in> set (file_names (run calls (BackupCoordinationLocal_init r))) \<Longrightarrow> fst k \<noteq> 0 \<Longrightarrow>
     file_infos (run calls (BackupCoordinationLocal_init r)) k \<noteq> None"
  using registry_inv_reachable[of calls r] unfolding registry_inv_def by blast

section \<open>Registering a file\<close>

text \<open>
  Claim C1. In every reachable state, \<^verbatim>\<open>addFileInfo\<close> of a record of size zero answers that
  no data file is required and leaves the content index as it is: no content record is
  created, and the name is in the name index. For a record of non-zero size whose size and
  checksum no earlier call has registered, the record is stored under that key and the
  answer is true exactly when the size exceeds the base size. When the key was registered
  before, the answer is false and the content index is unchanged.
\<close>

theorem addFileInfo_requires_data_upload:
  fixes st :: "'r BackupCoordinationLocal"
  assumes st: "st = run calls (BackupCoordinationLocal_init r)"
  shows "(size_bytes fi = 0 \<longrightarrow>
            fst (addFileInfo fi st) = False \<and>
            file_infos (snd (addFileInfo fi st)) = file_infos st \<and>
            getFileInfo_by_key (key_of fi) (snd (addFileInfo fi st)) = None \<and>
            file_name fi \<in> set (map fst (file_names (snd (addFileInfo fi st))))) \<and>
         (size_bytes fi \<noteq> 0 \<and> key_of fi \<notin> set (registered_keys calls) \<longrightarrow>
            fst (addFileInfo fi st) = (base_size fi < size_bytes fi) \<and>
            file_infos (snd (addFileInfo fi st)) = (file_infos st)(key_of fi \<mapsto> fi)) \<and>
         (size_bytes fi \<noteq> 0 \<and> key_of fi \<in> set (registered_keys calls) \<longrightarrow>
            fst (addFileInfo fi st) = False \<and>
            file_infos (snd (addFileInfo fi st)) = file_infos st)"
proof -
  have d: "dom (file_infos st) = set (registered_keys calls)"
    unfolding st by (rule reachable_dom_file_infos)
  have z: "file_infos st (key_of fi) = None" if "size_bytes fi = 0"
  proof (cases "file_infos st (key_of fi)")
    case None
    then show ?thesis .
  next
    case (Some info)
    from reachable_key_of[OF Some[unfolded st]] have "fst (key_of fi) \<noteq> 0" by simp
    with that show ?thesis by (simp add: key_of_def)
  qed
  have n: "file_name fi \<in> set (map fst (file_names (snd (addFileInfo fi st))))"
    using map_emplace_keys[of "file_name fi" "key_of fi" "file_names st"]
    by (simp add: addFileInfo_file_names)
  have a: "key_of fi \<in> set (registered_keys calls) \<longleftrightarrow> file_infos st (key_of fi) \<noteq> None"
    using d by (auto simp: dom_def)
  show ?thesis
    using z n a by (simp add: addFileInfo_result addFileInfo_file_infos getFileInfo_by_key_def)
qed


theorem addFileInfo_requires_data_upload_witness:
  "size_bytes \<lparr>file_name = ''e'', size_bytes = 0, checksum = 4, base_size = 0, archive_suffix = []\<rparr> = 0 \<and>
   fst (addFileInfo \<lparr>file_name = ''e'', size_bytes = 0, checksum = 4, base_size = 0, archive_suffix = []\<rparr>
          (run [AddFile \<lparr>file_name = ''a'', size_bytes = 5, checksum = 7, base_size = 0, archive_suffix = []\<rparr>]
             (BackupCoordinationLocal_init ()))) = False \<and>
   (9, 3) \<notin> set (registered_keys
      [AddFile \<lparr>file_name = ''a'', size_bytes = 5, checksum = 7, base_size = 0, archive_suffix = []\<rparr> :: unit call]) \<and>
   fst (addFileInfo \<lparr>file_name = ''b'', size_bytes = 9, checksum = 3, base_size = 2, archive_suffix = []\<rparr>
          (run [AddFile \<lparr>file_name = ''a'', size_bytes = 5, checksum = 7, base_size = 0, archive_suffix = []\<rparr>]
             (BackupCoordinationLocal_init ()))) = True \<and>
   (5, 7) \<in> set (registered_keys
      [AddFile \<lparr>file_name = ''a'', size_bytes = 5, checksum = 7, base_size = 0, archive_suffix = []\<rparr> :: unit call]) \<and>
   fst (addFileInfo \<lparr>file_name = ''c'', size_bytes = 5, checksum = 7, base_size = 0, archive_suffix = []\<rparr>
          (run [AddFile \<lparr>file_name = ''a'', size_bytes = 5, checksum = 7, base_size = 0, archive_suffix = []\<rparr>]
             (BackupCoordinationLocal_init ()))) = False"
  using
    addFileInfo_requires_data_upload [OF refl,
      of "\<lparr>file_name = ''e'', size_bytes = 0, checksum = 4, base_size = 0, archive_suffix = []\<rparr>"
         "[AddFile \<lparr>file_name = ''a'', size_bytes = 5, checksum = 7, base_size = 0, archive_suffix = []\<rparr>]" "()"]
    addFileInfo_requires_data_upload [OF refl,
      of "\<lparr>file_name = ''b'', size_bytes = 9, checksum = 3, base_size = 2, archive_suffix = []\<rparr>"
         "[AddFile \<lparr>file_name = ''a'', size_bytes = 5, checksum = 7, base_size = 0, archive_suffix = []\<rparr>]" "()"]
    addFileInfo_requires_data_upload [OF refl,
      of "\<lparr>file_name = ''c'', size_bytes = 5, checksum = 7, base_size = 0, archive_suffix = []\<rparr>"
         "[AddFile \<lparr>file_name = ''a'', size_bytes = 5, checksum = 7, base_size = 0, archive_suffix = []\<rparr>]" "()"]
  by (simp add: key_of_def)

section \<open>Updating a file that is not there\<close>

text \<open>
  Claim C6. \<^verbatim>\<open>updateFileInfo\<close> of a record of size zero returns and changes nothing. For a
  record of non-zero size whose key is not in the content index, in particular when no
  earlier \<^verbatim>\<open>addFileInfo\<close> of the history registered the key, the call fails with the
  not-found exception of \<^verbatim>\<open>std::map::at\<close> and the object is unchanged.
\<close>

theorem updateFileInfo_unregistered:
  "(size_bytes fi = 0 \<longrightarrow> updateFileInfo fi st = (Inr (), st)) \<and>
   (size_bytes fi \<noteq> 0 \<and> getFileInfo_by_key (key_of fi) st = None \<longrightarrow>
      updateFileInfo fi st = (Inl OutOfRange, st)) \<and>
   (size_bytes fi \<noteq> 0 \<and> key_of fi \<notin> set (registered_keys calls) \<longrightarrow>
      updateFileInfo fi (run calls (BackupCoordinationLocal_init r)) =
        (Inl OutOfRange, run calls (BackupCoordinationLocal_init r)))"
proof -
  have "file_infos (run calls (BackupCoordinationLocal_init r)) (key_of fi) = None"
    if "key_of fi \<notin> set (registered_keys calls)"
    using that reachable_dom_file_infos[of calls r] by (auto simp: dom_def)
  then show ?thesis
    by (simp add: updateFileInfo_def map_at_def getFileInfo_by_key_def key_of_def)
qed

theorem updateFileInfo_unregistered_witness:
  "size_bytes \<lparr>file_name = [], size_bytes = 0, checksum = 7, base_size = 0, archive_suffix = ''001''\<rparr> = 0 \<and>
   updateFileInfo \<lparr>file_name = [], size_bytes = 0, checksum = 7, base_size = 0, archive_suffix = ''001''\<rparr>
       (BackupCoordinationLocal_init ()) = (Inr (), BackupCoordinationLocal_init ()) \<and>
   size_bytes \<lparr>file_name = [], size_bytes = 5, checksum = 7, base_size = 0, archive_suffix = ''001''\<rparr> \<noteq> 0 \<and>
   (5, 7) \<notin> set (registered_keys
      [AddFile \<lparr>file_name = ''a'', size_bytes = 5, checksum = 8, base_size = 0, archive_suffix = []\<rparr> :: unit call]) \<and>
   updateFileInfo \<lparr>file_name = [], size_bytes = 5, checksum = 7, base_size = 0, archive_suffix = ''001''\<rparr>
       (run [AddFile \<lparr>file_name = ''a'', size_bytes = 5, checksum = 8, base_size = 0, archive_suffix = []\<rparr>]
          (BackupCoordinationLocal_init ())) =
     (Inl OutOfRange,
      run [AddFile \<lparr>file_name = ''a'', size_bytes = 5, checksum = 8, base_size = 0, archive_suffix = []\<rparr>]
          (BackupCoordinationLocal_init ()))"
  using
    updateFileInfo_unregistered [of
      "\<lparr>file_name = [], size_bytes = 0, checksum = 7, base_size = 0, archive_suffix = ''001''\<rparr>"
      "BackupCoordinationLocal_init ()" "[]" "()"]
    updateFileInfo_unregistered [of
      "\<lparr>file_name = [], size_bytes = 5, checksum = 7, base_size = 0, archive_suffix = ''001''\<rparr>"
      "BackupCoordinationLocal_init ()"
      "[AddFile \<lparr>file_name = ''a'', size_bytes = 5, checksum = 8, base_size = 0, archive_suffix = []\<rparr>]" "()"]
  by (simp add: key_of_def)

section \<open>Update, then look up\<close>

text \<open>
  Claim C7. When a key of non-zero size is in the content index, \<^verbatim>\<open>updateFileInfo\<close> succeeds
  and \<^verbatim>\<open>getFileInfo\<close> by that key then gives the stored record with the new archive suffix;
  its size, checksum, base size and file name are the ones from before the update, and the
  records under all other keys are untouched.
\<close>

theorem updateFileInfo_getFileInfo_roundtrip:
  assumes "getFileInfo_by_key (key_of fi) st = Some info" and "size_bytes fi \<noteq> 0"
  shows "fst (updateFileInfo fi st) = Inr () \<and>
         getFileInfo_by_key (key_of fi) (snd (updateFileInfo fi st)) =
           Some (info\<lparr>archive_suffix := archive_suffix fi\<rparr>) \<and>
         archive_suffix (info\<lparr>archive_suffix := archive_suffix fi\<rparr>) = archive_suffix fi \<and>
         size_bytes (info\<lparr>archive_suffix := archive_suffix fi\<rparr>) = size_bytes info \<and>
         checksum (info\<lparr>archive_suffix := archive_suffix fi\<rparr>) = checksum info \<and>
         base_size (info\<lparr>archive_suffix := archive_suffix fi\<rparr>) = base_size info \<and>
         file_name (info\<lparr>archive_suffix := archive_suffix fi\<rparr>) = file_name info \<and>
         (\<forall>k. k \<noteq> key_of fi \<longrightarrow>
            getFileInfo_by_key k (snd (updateFileInfo fi st)) = getFileInfo_by_key k st)"
  using assms
  by (simp add: updateFileInfo_def map_at_def getFileInfo_by_key_def key_of_def)

theorem updateFileInfo_getFileInfo_roundtrip_witness:
  "getFileInfo_by_key (5, 7)
     (run [AddFile \<lparr>file_name = ''a'', size_bytes = 5, checksum = 7, base_size = 2, archive_suffix = []\<rparr>]
        (BackupCoordinationLocal_init ())) =
     Some \<lparr>file_name = ''a'', size_bytes = 5, checksum = 7, base_size = 2, archive_suffix = []\<rparr> \<and>
   getFileInfo_by_key (5, 7)
     (snd (updateFileInfo \<lparr>file_name = [], size_bytes = 5, checksum = 7, base_size = 0, archive_suffix = ''002''\<rparr>
        (run [AddFile \<lparr>file_name = ''a'', size_bytes = 5, checksum = 7, base_size = 2, archive_suffix = []\<rparr>]
           (BackupCoordinationLocal_init ())))) =
     Some \<lparr>file_name = ''a'', size_bytes = 5, checksum = 7, base_size = 2, archive_suffix = ''002''\<rparr>"
proof -
  have h: "getFileInfo_by_key
      (key_of \<lparr>file_name = [], size_bytes = 5, checksum = 7, base_size = 0, archive_suffix = ''002''\<rparr>)
      (run [AddFile \<lparr>file_name = ''a'', size_bytes = 5, checksum = 7, base_size = 2, archive_suffix = []\<rparr>]
        (BackupCoordinationLocal_init ())) =
     Some \<lparr>file_name = ''a'', size_bytes = 5, checksum = 7, base_size = 2, archive_suffix = []\<rparr>"
    by (simp add: getFileInfo_by_key_def key_of_def run_def addFileInfo_def Let_def try_emplace_def
        BackupCoordinationLocal_init_def)
  from updateFileInfo_getFileInfo_roundtrip [OF h] h show ?thesis
    by (simp add: key_of_def)
qed

section \<open>Finishing the preparation\<close>

text \<open>
  Claim C8. With an empty error message \<^verbatim>\<open>finishPreparing\<close> runs the tracker's
  \<^verbatim>\<open>preparePartNames\<close>: its outcome is the call's outcome and its effect on the tracker is the
  call's effect. With a non-empty error message the call returns normally and leaves the
  object, the tracker included, as it was. \<^verbatim>\<open>waitForAllHostsPrepared\<close> returns at once.
\<close>

theorem finishPreparing_triggers_preparePartNames:
  "finishPreparing preparePartNames host_id [] st =
     (fst (preparePartNames (replicated_part_names st)),
      st\<lparr>replicated_part_names := snd (preparePartNames (replicated_part_names st))\<rparr>) \<and>
   (error_message \<noteq> [] \<longrightarrow>
      finishPreparing preparePartNames host_id error_message st = (Inr (), st)) \<and>
   waitForAllHostsPrepared host_ids timeout st = ((), st)"
  by (simp add: finishPreparing_def waitForAllHostsPrepared_def split: prod.split)

theorem finishPreparing_triggers_preparePartNames_witness:
  "''disk full'' \<noteq> [] \<and>
   finishPreparing (\<lambda>n :: nat. (Inr () :: unit + unit, Suc n)) ''host1'' ''disk full''
       (BackupCoordinationLocal_init 0) = (Inr (), BackupCoordinationLocal_init 0) \<and>
   finishPreparing (\<lambda>n :: nat. (Inr () :: unit + unit, Suc n)) ''host1'' []
       (BackupCoordinationLocal_init 0) = (Inr (), BackupCoordinationLocal_init (Suc 0))"
  using finishPreparing_triggers_preparePartNames
    [of "\<lambda>n :: nat. (Inr () :: unit + unit, Suc n)" "''host1''" "BackupCoordinationLocal_init 0"
        "''disk full''" "[]" 0]
  by (simp add: BackupCoordinationLocal_init_def)

section \<open>One content record per key\<close>

text \<open>
  Claim C2. After every history of calls, two content records with the same size and
  checksum are one record under one key, and the keys of the content index are exactly
  the non-zero keys that \<^verbatim>\<open>addFileInfo\<close> was called with. An \<^verbatim>\<open>addFileInfo\<close> with a key that is
  in the index leaves the index as it is and answers false, so that the second of two
  registrations of the same key always answers false; \<^verbatim>\<open>updateFileInfo\<close> leaves the set of
  keys as it is.
\<close>

theorem content_index_one_record_per_key:
  fixes st :: "'r BackupCoordinationLocal"
  assumes st: "st = run calls (BackupCoordinationLocal_init r)"
  shows "(\<forall>k1 k2 info1 info2.
            file_infos st k1 = Some info1 \<and> file_infos st k2 = Some info2 \<and>
            key_of info1 = key_of info2 \<longrightarrow> k1 = k2 \<and> info1 = info2) \<and>
         dom (file_infos st) = set (registered_keys calls) \<and>
         (file_infos st (key_of fi) \<noteq> None \<longrightarrow>
            fst (addFileInfo fi st) = False \<and>
            file_infos (snd (addFileInfo fi st)) = file_infos st) \<and>
         (key_of fi' = key_of fi \<longrightarrow>
            fst (addFileInfo fi' (snd (addFileInfo fi st))) = False) \<and>
         dom (file_infos (snd (updateFileInfo fi st))) = dom (file_infos st)"
proof -
  have a: "k1 = k2 \<and> info1 = info2"
    if "file_infos st k1 = Some info1" "file_infos st k2 = Some info2" "key_of info1 = key_of info2"
    for k1 k2 info1 info2
  proof -
    from that(1) have "key_of info1 = k1" unfolding st by (simp add: reachable_key_of)
    moreover from that(2) have "key_of info2 = k2" unfolding st by (simp add: reachable_key_of)
    ultimately have "k1 = k2" using that(3) by simp
    with that(1,2) show ?thesis by simp
  qed
  have b: "dom (file_infos st) = set (registered_keys calls)"
    unfolding st by (rule reachable_dom_file_infos)
  have c: "fst (addFileInfo fi st) = False \<and> file_infos (snd (addFileInfo fi st)) = file_infos st"
    if "file_infos st (key_of fi) \<noteq> None"
    using that by (auto simp: addFileInfo_result addFileInfo_file_infos)
  have d: "fst (addFileInfo fi' (snd (addFileInfo fi st))) = False" if "key_of fi' = key_of fi"
  proof (cases "size_bytes fi = 0")
    case True
    with that have "size_bytes fi' = 0" by (simp add: key_of_def)
    then show ?thesis by (simp add: addFileInfo_result)
  next
    case False
    then have "file_infos (snd (addFileInfo fi st)) (key_of fi) \<noteq> None"
      by (simp add: addFileInfo_file_infos)
    with that show ?thesis by (simp add: addFileInfo_result)
  qed
  have e: "dom (file_infos (snd (updateFileInfo fi st))) = dom (file_infos st)"
    using step_dom_file_infos[of "UpdateFile fi" st] by simp
  from a b c d e show ?thesis by blast
qed

theorem content_index_one_record_per_key_witness:
  "file_infos
     (run [AddFile \<lparr>file_name = ''a'', size_bytes = 5, checksum = 7, base_size = 0, archive_suffix = []\<rparr>]
        (BackupCoordinationLocal_init ()))
     (key_of \<lparr>file_name = ''b'', size_bytes = 5, checksum = 7, base_size = 1, archive_suffix = []\<rparr>) \<noteq> None \<and>
   fst (addFileInfo \<lparr>file_name = ''b'', size_bytes = 5, checksum = 7, base_size = 1, archive_suffix = []\<rparr>
     (run [AddFile \<lparr>file_name = ''a'', size_bytes = 5, checksum = 7, base_size = 0, archive_suffix = []\<rparr>]
        (BackupCoordinationLocal_init ()))) = False \<and>
   file_infos (snd (addFileInfo \<lparr>file_name = ''b'', size_bytes = 5, checksum = 7, base_size = 1, archive_suffix = []\<rparr>
     (run [AddFile \<lparr>file_name = ''a'', size_bytes = 5, checksum = 7, base_size = 0, archive_suffix = []\<rparr>]
        (BackupCoordinationLocal_init ())))) (5, 7) =
     Some \<lparr>file_name = ''a'', size_bytes = 5, checksum = 7, base_size = 0, archive_suffix = []\<rparr>"
proof -
  have h: "file_infos
     (run [AddFile \<lparr>file_name = ''a'', size_bytes = 5, checksum = 7, base_size = 0, archive_suffix = []\<rparr>]
        (BackupCoordinationLocal_init ())) (5, 7) =
     Some \<lparr>file_name = ''a'', size_bytes = 5, checksum = 7, base_size = 0, archive_suffix = []\<rparr>"
    by (simp add: run_def addFileInfo_def Let_def try_emplace_def BackupCoordinationLocal_init_def)
  from content_index_one_record_per_key [OF refl,
      where fi = "\<lparr>file_name = ''b'', size_bytes = 5, checksum = 7, base_size = 1, archive_suffix = []\<rparr>"
        and calls = "[AddFile \<lparr>file_name = ''a'', size_bytes = 5, checksum = 7, base_size = 0, archive_suffix = []\<rparr>]"
        and r = "()"] h
  show ?thesis by (simp add: key_of_def)
qed

section \<open>Registering a name again\<close>

text \<open>
  Claim C9. In every reachable state, \<^verbatim>\<open>addFileInfo\<close> of a record whose file name is in the
  name index leaves the name index as it is, so the name keeps the size and checksum it
  was first registered with. The content index and the answer are those of the new
  record's own key: the record is stored, and the answer can be true, exactly when its
  size is not zero and its key is not in the content index.
\<close>

theorem addFileInfo_name_present:
  fixes st :: "'r BackupCoordinationLocal"
  assumes st: "st = run calls (BackupCoordinationLocal_init r)"
    and name: "file_name fi \<in> set (registered_names calls)"
  shows "file_names (snd (addFileInfo fi st)) = file_names st \<and>
         getFileSizeAndChecksum (file_name fi) (snd (addFileInfo fi st)) =
           getFileSizeAndChecksum (file_name fi) st \<and>
         fst (addFileInfo fi st) =
           (size_bytes fi \<noteq> 0 \<and> getFileInfo_by_key (key_of fi) st = None \<and>
            base_size fi < size_bytes fi) \<and>
         file_infos (snd (addFileInfo fi st)) =
           (if size_bytes fi \<noteq> 0 \<and> getFileInfo_by_key (key_of fi) st = None
            then (file_infos st)(key_of fi \<mapsto> fi) else file_infos st)"
proof -
  have s: "sorted_wrt (<) (map fst (file_names st))"
    unfolding st by (rule reachable_sorted)
  have m: "file_name fi \<in> set (map fst (file_names st))"
    using name unfolding st reachable_names .
  have "file_names (snd (addFileInfo fi st)) = file_names st"
    unfolding addFileInfo_file_names using s m by (rule map_emplace_present)
  then show ?thesis
    by (simp add: getFileSizeAndChecksum_def addFileInfo_result addFileInfo_file_infos
        getFileInfo_by_key_def)
qed

theorem addFileInfo_name_present_witness:
  "''a'' \<in> set (registered_names
      [AddFile \<lparr>file_name = ''a'', size_bytes = 5, checksum = 7, base_size = 0, archive_suffix = []\<rparr> :: unit call]) \<and>
   getFileSizeAndChecksum ''a''
     (snd (addFileInfo \<lparr>file_name = ''a'', size_bytes = 9, checksum = 3, base_size = 2, archive_suffix = []\<rparr>
       (run [AddFile \<lparr>file_name = ''a'', size_bytes = 5, checksum = 7, base_size = 0, archive_suffix = []\<rparr>]
          (BackupCoordinationLocal_init ())))) = Some (5, 7) \<and>
   fst (addFileInfo \<lparr>file_name = ''a'', size_bytes = 9, checksum = 3, base_size = 2, archive_suffix = []\<rparr>
       (run [AddFile \<lparr>file_name = ''a'', size_bytes = 5, checksum = 7, base_size = 0, archive_suffix = []\<rparr>]
          (BackupCoordinationLocal_init ()))) = True"
proof -
  have n: "file_name \<lparr>file_name = ''a'', size_bytes = 9, checksum = 3, base_size = 2, archive_suffix = []\<rparr>
     \<in> set (registered_names
      [AddFile \<lparr>file_name = ''a'', size_bytes = 5, checksum = 7, base_size = 0, archive_suffix = []\<rparr> :: unit call])"
    by simp
  have g: "getFileSizeAndChecksum ''a''
       (run [AddFile \<lparr>file_name = ''a'', size_bytes = 5, checksum = 7, base_size = 0, archive_suffix = []\<rparr>]
          (BackupCoordinationLocal_init ())) = Some (5, 7)"
    by (simp add: getFileSizeAndChecksum_def map_find_def run_def addFileInfo_def Let_def
        try_emplace_def BackupCoordinationLocal_init_def)
  have k: "getFileInfo_by_key (9, 3)
       (run [AddFile \<lparr>file_name = ''a'', size_bytes = 5, checksum = 7, base_size = 0, archive_suffix = []\<rparr>]
          (BackupCoordinationLocal_init ())) = None"
    by (simp add: getFileInfo_by_key_def run_def addFileInfo_def Let_def
        try_emplace_def BackupCoordinationLocal_init_def)
  from addFileInfo_name_present [OF refl n, of "()"] g k show ?thesis
    by (simp add: key_of_def)
qed

section \<open>Files of size zero\<close>









section \<open>The dump of all files\<close>

lemma info_of_name_zero:
  "fst k = 0 \<Longrightarrow> info_of_name infos name k = Inr (default_FileInfo\<lparr>file_name := name\<rparr>)"
  by (simp add: info_of_name_def)

lemma info_of_name_stored:
  "fst k \<noteq> 0 \<Longrightarrow> infos k = Some stored \<Longrightarrow>
     info_of_name infos name k = Inr (stored\<lparr>file_name := name\<rparr>)"
  by (simp add: info_of_name_def map_at_def)

lemma info_of_name_missing:
  "fst k \<noteq> 0 \<Longrightarrow> infos k = None \<Longrightarrow> info_of_name infos name k = Inl OutOfRange"
  by (simp add: info_of_name_def map_at_def)

lemma getAllFileInfos_loop_complete:
  assumes "\<forall>e \<in> set entries. fst (snd e) \<noteq> 0 \<longrightarrow> infos (snd e) \<noteq> None"
  shows "\<exists>out. getAllFileInfos_loop infos entries res = Inr (res @ out) \<and>
           list_all2 (\<lambda>e info. info_of_name infos (fst e) (snd e) = Inr info) entries out"
  using assms
proof (induction entries arbitrary: res)
  case Nil
  then show ?case by simp
next
  case (Cons e entries)
  obtain name k where e: "e = (name, k)" by (cases e)
  have "\<exists>info. info_of_name infos name k = Inr info"
  proof (cases "fst k = 0")
    case True
    then show ?thesis by (simp add: info_of_name_zero)
  next
    case False
    with Cons.prems obtain stored where "infos k = Some stored" by (auto simp: e)
    with False show ?thesis by (simp add: info_of_name_stored)
  qed
  then obtain info where info: "info_of_name infos name k = Inr info" ..
  have "\<forall>e \<in> set entries. fst (snd e) \<noteq> 0 \<longrightarrow> infos (snd e) \<noteq> None"
    using Cons.prems by simp
  from Cons.IH[OF this, of "res @ [info]"] obtain out where
    out: "getAllFileInfos_loop infos entries (res @ [info]) = Inr ((res @ [info]) @ out)"
      "list_all2 (\<lambda>e info. info_of_name infos (fst e) (snd e) = Inr info) entries out"
    by blast
  have "getAllFileInfos_loop infos (e # entries) res = Inr (res @ info # out)"
    using info out(1) by (simp add: e)
  moreover have "list_all2 (\<lambda>e info. info_of_name infos (fst e) (snd e) = Inr info)
      (e # entries) (info # out)"
    using info out(2) by (simp add: e)
  ultimately show ?case by blast
qed

lemma info_of_name_file_name: "info_of_name infos name k = Inr info \<Longrightarrow> file_name info = name"
  by (auto simp: info_of_name_def map_at_def split: if_splits option.splits)

lemma list_all2_file_names:
  "list_all2 (\<lambda>e info. info_of_name infos (fst e) (snd e) = Inr info) entries out \<Longrightarrow>
     map file_name out = map fst entries"
  by (induction entries out rule: list_all2_induct) (simp_all add: info_of_name_file_name)

text \<open>
  Claim C3, as amended. In every reachable state \<^verbatim>\<open>getAllFileInfos\<close> succeeds and gives one
  entry per registered name, in the order of the names: for a name of size zero a default
  record under that name, and for any other name the content record stored under the
  name's size and checksum, under that name. A content record that several names map to
  is therefore listed once for each of these names.
\<close>

theorem getAllFileInfos_one_entry_per_name:
  fixes st :: "'r BackupCoordinationLocal"
  assumes st: "st = run calls (BackupCoordinationLocal_init r)"
  shows "\<exists>dump. getAllFileInfos st = Inr dump \<and>
           map file_name dump = map fst (file_names st) \<and>
           sorted_wrt (<) (map file_name dump) \<and>
           set (map file_name dump) = set (registered_names calls) \<and>
           list_all2
             (\<lambda>e info.
                (fst (snd e) = 0 \<longrightarrow> info = default_FileInfo\<lparr>file_name := fst e\<rparr>) \<and>
                (fst (snd e) \<noteq> 0 \<longrightarrow>
                   (\<exists>stored. getFileInfo_by_key (snd e) st = Some stored \<and>
                      info = stored\<lparr>file_name := fst e\<rparr>)))
             (file_names st) dump"
proof -
  have has: "\<forall>e \<in> set (file_names st). fst (snd e) \<noteq> 0 \<longrightarrow> file_infos st (snd e) \<noteq> None"
  proof (intro ballI impI)
    fix e assume "e \<in> set (file_names st)" "fst (snd e) \<noteq> 0"
    then have "(fst e, snd e) \<in> set (file_names (run calls (BackupCoordinationLocal_init r)))"
      unfolding st by simp
    from reachable_has_info[OF this \<open>fst (snd e) \<noteq> 0\<close>]
    show "file_infos st (snd e) \<noteq> None" unfolding st .
  qed
  from getAllFileInfos_loop_complete[OF has, of "[]"]
  obtain dump where dump: "getAllFileInfos st = Inr dump"
    and all: "list_all2 (\<lambda>e info. info_of_name (file_infos st) (fst e) (snd e) = Inr info)
                (file_names st) dump"
    by (auto simp: getAllFileInfos_def)
  have names: "map file_name dump = map fst (file_names st)"
    using all by (rule list_all2_file_names)
  have sorted: "sorted_wrt (<) (map file_name dump)"
    unfolding names st by (rule reachable_sorted)
  have reg: "set (map file_name dump) = set (registered_names calls)"
    unfolding names st by (rule reachable_names)
  have "list_all2
     (\<lambda>e info.
        (fst (snd e) = 0 \<longrightarrow> info = default_FileInfo\<lparr>file_name := fst e\<rparr>) \<and>
        (fst (snd e) \<noteq> 0 \<longrightarrow>
           (\<exists>stored. getFileInfo_by_key (snd e) st = Some stored \<and>
              info = stored\<lparr>file_name := fst e\<rparr>)))
     (file_names st) dump"
    using all
  proof (rule list_all2_mono)
    fix e info
    assume h: "info_of_name (file_infos st) (fst e) (snd e) = Inr info"
    show "(fst (snd e) = 0 \<longrightarrow> info = default_FileInfo\<lparr>file_name := fst e\<rparr>) \<and>
        (fst (snd e) \<noteq> 0 \<longrightarrow>
           (\<exists>stored. getFileInfo_by_key (snd e) st = Some stored \<and>
              info = stored\<lparr>file_name := fst e\<rparr>))"
      using h
      by (auto simp: info_of_name_def map_at_def getFileInfo_by_key_def
          split: if_splits option.splits)
  qed
  with dump names sorted reg show ?thesis by blast
qed


theorem getAllFileInfos_one_entry_per_name_witness:
  "\<exists>dump.
     getAllFileInfos
       (run [AddFile \<lparr>file_name = ''b'', size_bytes = 5, checksum = 7, base_size = 3, archive_suffix = []\<rparr>,
             AddFile \<lparr>file_name = ''a'', size_bytes = 5, checksum = 7, base_size = 0, archive_suffix = []\<rparr>,
             AddFile \<lparr>file_name = ''e'', size_bytes = 0, checksum = 9, base_size = 0, archive_suffix = []\<rparr>]
          (BackupCoordinationLocal_init ())) = Inr dump \<and>
     map file_name dump = [''a'', ''b'', ''e'']"
proof -
  have n: "map fst (file_names
       (run [AddFile \<lparr>file_name = ''b'', size_bytes = 5, checksum = 7, base_size = 3, archive_suffix = []\<rparr>,
             AddFile \<lparr>file_name = ''a'', size_bytes = 5, checksum = 7, base_size = 0, archive_suffix = []\<rparr>,
             AddFile \<lparr>file_name = ''e'', size_bytes = 0, checksum = 9, base_size = 0, archive_suffix = []\<rparr>]
          (BackupCoordinationLocal_init ()))) = [''a'', ''b'', ''e'']"
    by (simp add: run_def addFileInfo_def Let_def try_emplace_def BackupCoordinationLocal_init_def)
  from getAllFileInfos_one_entry_per_name [OF refl,
      where calls = "[AddFile \<lparr>file_name = ''b'', size_bytes = 5, checksum = 7, base_size = 3, archive_suffix = []\<rparr>,
             AddFile \<lparr>file_name = ''a'', size_bytes = 5, checksum = 7, base_size = 0, archive_suffix = []\<rparr>,
             AddFile \<lparr>file_name = ''e'', size_bytes = 0, checksum = 9, base_size = 0, archive_suffix = []\<rparr>]"
        and r = "()"]
  obtain dump where a: "getAllFileInfos
       (run [AddFile \<lparr>file_name = ''b'', size_bytes = 5, checksum = 7, base_size = 3, archive_suffix = []\<rparr>,
             AddFile \<lparr>file_name = ''a'', size_bytes = 5, checksum = 7, base_size = 0, archive_suffix = []\<rparr>,
             AddFile \<lparr>file_name = ''e'', size_bytes = 0, checksum = 9, base_size = 0, archive_suffix = []\<rparr>]
          (BackupCoordinationLocal_init ())) = Inr dump"
    and b: "map file_name dump = [''a'', ''b'', ''e'']"
    unfolding n by (elim exE conjE)
  from a b show ?thesis by (intro exI[of _ dump] conjI)
qed

text \<open>
  The claim as it is written fails: two names with the same content give two entries
  with that size and checksum, both made from the one stored record.
\<close>

theorem getAllFileInfos_shared_record_counterexample:
  "getAllFileInfos
     (run [AddFile \<lparr>file_name = ''a'', size_bytes = 5, checksum = 7, base_size = 0, archive_suffix = []\<rparr>,
           AddFile \<lparr>file_name = ''b'', size_bytes = 5, checksum = 7, base_size = 3, archive_suffix = []\<rparr>]
        (BackupCoordinationLocal_init ())) =
     Inr [\<lparr>file_name = ''a'', size_bytes = 5, checksum = 7, base_size = 0, archive_suffix = []\<rparr>,
          \<lparr>file_name = ''b'', size_bytes = 5, checksum = 7, base_size = 0, archive_suffix = []\<rparr>] \<and>
   length (entries_with_key (5, 7)
     [\<lparr>file_name = ''a'', size_bytes = 5, checksum = 7, base_size = 0, archive_suffix = []\<rparr>,
      \<lparr>file_name = ''b'', size_bytes = 5, checksum = 7, base_size = 0, archive_suffix = []\<rparr>]) = 2"
  by (simp add: getAllFileInfos_def run_def addFileInfo_def Let_def try_emplace_def
      BackupCoordinationLocal_init_def info_of_name_def map_at_def entries_with_key_def key_of_def)

section \<open>Listing by prefix\<close>

lemma starts_with_ge: "starts_with name pre \<Longrightarrow> pre \<le> name"
proof (induction pre arbitrary: name)
  case Nil
  then show ?case by simp
next
  case (Cons c pre)
  then obtain rest where name: "name = c # rest" and rest: "starts_with rest pre"
    by (cases name) (auto simp: starts_with_def)
  from Cons.IH[OF rest] show ?case by (simp add: name)
qed

lemma starts_with_between:
  "pre \<le> a \<Longrightarrow> a \<le> b \<Longrightarrow> starts_with b pre \<Longrightarrow> starts_with a pre"
proof (induction pre arbitrary: a b)
  case Nil
  then show ?case by (simp add: starts_with_def)
next
  case (Cons c pre)
  from Cons.prems(3) obtain b' where b: "b = c # b'" and b': "starts_with b' pre"
    by (cases b) (auto simp: starts_with_def)
  from Cons.prems(1) obtain d a' where a: "a = d # a'" by (cases a) auto
  from Cons.prems(1) have 1: "c < d \<or> c = d \<and> pre \<le> a'" by (simp add: a)
  from Cons.prems(2) have 2: "d < c \<or> d = c \<and> a' \<le> b'" by (simp add: a b)
  from 1 2 have dc: "d = c" and le1: "pre \<le> a'" and le2: "a' \<le> b'" by auto
  from Cons.IH[OF le1 le2 b'] show ?case by (simp add: a dc starts_with_def)
qed

lemma takeWhile_filter_starts_with:
  "sorted_wrt (<) names \<Longrightarrow> \<forall>n \<in> set names. pre \<le> n \<Longrightarrow>
     takeWhile (\<lambda>n. starts_with n pre) names = filter (\<lambda>n. starts_with n pre) names"
proof (induction names)
  case Nil
  then show ?case by simp
next
  case (Cons x names)
  show ?case
  proof (cases "starts_with x pre")
    case True
    with Cons show ?thesis by simp
  next
    case False
    have "\<not> starts_with y pre" if "y \<in> set names" for y
    proof
      assume "starts_with y pre"
      moreover from Cons.prems(1) that have "x \<le> y" by auto
      moreover from Cons.prems(2) have "pre \<le> x" by simp
      ultimately have "starts_with x pre" by (intro starts_with_between[of pre x y])
      with False show False ..
    qed
    then have "filter (\<lambda>n. starts_with n pre) names = []" by (simp add: filter_empty_conv)
    with False show ?thesis by simp
  qed
qed

lemma lower_bound_filter_starts_with:
  "sorted_wrt (<) names \<Longrightarrow>
     takeWhile (\<lambda>n. starts_with n pre) (dropWhile (\<lambda>n. n < pre) names) =
     filter (\<lambda>n. starts_with n pre) names"
proof (induction names)
  case Nil
  then show ?case by simp
next
  case (Cons x names)
  show ?case
  proof (cases "x < pre")
    case True
    then have "\<not> starts_with x pre" using starts_with_ge[of x pre] by auto
    with True Cons show ?thesis by simp
  next
    case False
    then have "pre \<le> x" by simp
    moreover from Cons.prems have "\<forall>y \<in> set names. x < y" by simp
    ultimately have "\<forall>n \<in> set (x # names). pre \<le> n" by auto
    from takeWhile_filter_starts_with[OF Cons.prems this] False show ?thesis by simp
  qed
qed

lemma find_Some_member: "List.find P xs = Some x \<Longrightarrow> x \<in> set xs"
  by (induction xs) (auto split: if_splits)

lemma str_find_ge: "str_find s t pos = Some e \<Longrightarrow> pos \<le> e"
  unfolding str_find_def using find_Some_member[of _ "[pos ..< Suc (length s)]" e] by auto

lemma str_find_step:
  "pos \<le> length s \<Longrightarrow>
     str_find s t pos =
       (if take (length t) (drop pos s) = t then Some pos else
        if pos = length s then None else str_find s t (Suc pos))"
proof -
  assume "pos \<le> length s"
  then have "[pos ..< Suc (length s)] = pos # [Suc pos ..< Suc (length s)]"
    by (simp add: upt_conv_Cons)
  then show ?thesis unfolding str_find_def by simp
qed

lemma substr_str_find:
  "terminator \<noteq> [] \<Longrightarrow> pos \<le> length s \<Longrightarrow>
     substr s pos (str_find s terminator pos) = before_first terminator (drop pos s)"
proof (induction "length s - pos" arbitrary: pos)
  case 0
  then have pos: "pos = length s" by simp
  with 0 show ?case by (simp add: str_find_step substr_def)
next
  case (Suc n)
  then have lt: "pos < length s" by simp
  then obtain c where c: "drop pos s = c # drop (Suc pos) s"
    using Cons_nth_drop_Suc[of pos s] by metis
  show ?case
  proof (cases "take (length terminator) (drop pos s) = terminator")
    case True
    with lt show ?thesis by (simp add: str_find_step[of pos] substr_def c[symmetric])
      (simp add: c)
  next
    case False
    from Suc.hyps(2) have n: "n = length s - Suc pos" by simp
    from lt have le: "Suc pos \<le> length s" by simp
    note IH = Suc.hyps(1)[OF n Suc.prems(1) le]
    have f: "str_find s terminator pos = str_find s terminator (Suc pos)"
      using False lt by (simp add: str_find_step[of pos])
    have "substr s pos (str_find s terminator (Suc pos)) =
            c # substr s (Suc pos) (str_find s terminator (Suc pos))"
    proof (cases "str_find s terminator (Suc pos)")
      case None
      then show ?thesis by (simp add: substr_def c)
    next
      case (Some e)
      from str_find_ge[OF Some] have "e - pos = Suc (e - Suc pos)" by simp
      with Some show ?thesis by (simp add: substr_def c)
    qed
    with f IH False show ?thesis by (simp add: c)
  qed
qed

lemma new_element_path_segment:
  "starts_with name pre \<Longrightarrow>
     substr name (length pre)
       (if terminator \<noteq> [] then str_find name terminator (length pre) else None) =
     path_segment pre terminator name"
proof -
  assume "starts_with name pre"
  then have "length (take (length pre) name) = length pre"
    unfolding starts_with_def by simp
  then have "length pre \<le> length name" by simp
  then show ?thesis
    by (simp add: path_segment_def substr_str_find) (simp add: substr_def)
qed

lemma listFiles_loop_nonempty:
  "listFiles_loop pre terminator entries (ys @ [y]) =
     ys @ remdups_adj (y # map (path_segment pre terminator)
                             (takeWhile (\<lambda>n. starts_with n pre) (map fst entries)))"
proof (induction entries arbitrary: ys y)
  case Nil
  then show ?case by simp
next
  case (Cons e entries)
  obtain name k where e: "e = (name, k)" by (cases e)
  show ?case
  proof (cases "starts_with name pre")
    case False
    then show ?thesis by (simp add: e)
  next
    case True
    note seg = new_element_path_segment[OF True, of terminator]
    show ?thesis
    proof (cases "y = path_segment pre terminator name")
      case same: True
      have "listFiles_loop pre terminator (e # entries) (ys @ [y]) =
              listFiles_loop pre terminator entries (ys @ [y])"
        using True same seg by (simp add: e Let_def)
      also have "\<dots> = ys @ remdups_adj (y # map (path_segment pre terminator)
                             (takeWhile (\<lambda>n. starts_with n pre) (map fst entries)))"
        by (rule Cons.IH)
      also have "\<dots> = ys @ remdups_adj (y # map (path_segment pre terminator)
                             (takeWhile (\<lambda>n. starts_with n pre) (map fst (e # entries))))"
        using True same by (simp add: e)
      finally show ?thesis .
    next
      case diff: False
      have "listFiles_loop pre terminator (e # entries) (ys @ [y]) =
              listFiles_loop pre terminator entries ((ys @ [y]) @ [path_segment pre terminator name])"
        using True diff seg by (simp add: e Let_def)
      also have "\<dots> = (ys @ [y]) @ remdups_adj (path_segment pre terminator name #
                             map (path_segment pre terminator)
                             (takeWhile (\<lambda>n. starts_with n pre) (map fst entries)))"
        by (rule Cons.IH)
      also have "\<dots> = ys @ remdups_adj (y # map (path_segment pre terminator)
                             (takeWhile (\<lambda>n. starts_with n pre) (map fst (e # entries))))"
        using True diff by (simp add: e)
      finally show ?thesis .
    qed
  qed
qed

lemma listFiles_loop_empty:
  "listFiles_loop pre terminator entries [] =
     remdups_adj (map (path_segment pre terminator)
                    (takeWhile (\<lambda>n. starts_with n pre) (map fst entries)))"
proof (cases entries)
  case Nil
  then show ?thesis by simp
next
  case (Cons e rest)
  obtain name k where e: "e = (name, k)" by (cases e)
  show ?thesis
  proof (cases "starts_with name pre")
    case False
    then show ?thesis by (simp add: Cons e)
  next
    case True
    note seg = new_element_path_segment[OF True, of terminator]
    have "listFiles_loop pre terminator entries [] =
            listFiles_loop pre terminator rest ([] @ [path_segment pre terminator name])"
      using True seg by (simp add: Cons e Let_def)
    also have "\<dots> = [] @ remdups_adj (path_segment pre terminator name #
                             map (path_segment pre terminator)
                             (takeWhile (\<lambda>n. starts_with n pre) (map fst rest)))"
      by (rule listFiles_loop_nonempty)
    also have "\<dots> = remdups_adj (map (path_segment pre terminator)
                    (takeWhile (\<lambda>n. starts_with n pre) (map fst entries)))"
      using True by (simp add: Cons e)
    finally show ?thesis .
  qed
qed

lemma listFiles_sorted:
  assumes "sorted_wrt (<) (map fst (file_names st))"
  shows "listFiles pre terminator st =
     remdups_adj (map (path_segment pre terminator)
                    (filter (\<lambda>n. starts_with n pre) (map fst (file_names st))))"
proof -
  have "map fst (lower_bound pre (file_names st)) = dropWhile (\<lambda>n. n < pre) (map fst (file_names st))"
    by (simp add: lower_bound_def dropWhile_map comp_def)
  then show ?thesis
    unfolding listFiles_def listFiles_loop_empty
    by (simp add: lower_bound_filter_starts_with[OF assms])
qed


lemma reachable_names_sorted_list:
  "map fst (file_names (run calls (BackupCoordinationLocal_init r))) =
     sorted_list_of_set (set (registered_names calls))"
proof -
  let ?names = "map fst (file_names (run calls (BackupCoordinationLocal_init r)))"
  have "sorted ?names" "distinct ?names"
    using reachable_sorted[of calls r] unfolding strict_sorted_iff by blast+
  then have "sorted_list_of_set (set ?names) = ?names"
    by (rule sorted_list_of_set.idem_if_sorted_distinct)
  then show ?thesis unfolding reachable_names by simp
qed

text \<open>
  Claim C4, as amended. After every history of calls, \<^verbatim>\<open>listFiles\<close> gives, for the registered
  names that start with the prefix, taken in lexicographic order, the segment of each name
  between the prefix and the first terminator after it (to the end of the name when the
  terminator is empty or does not occur), with every run of equal consecutive segments
  collapsed to one. Over the names a/b/c, a/b/d and a/e, the prefix a/ and the terminator /
  give b and e.
\<close>

theorem listFiles_segments:
  "listFiles pre terminator (run calls (BackupCoordinationLocal_init r)) =
     remdups_adj (map (path_segment pre terminator)
       (filter (\<lambda>name. starts_with name pre)
          (sorted_list_of_set (set (registered_names calls))))) \<and>
   (set (registered_names calls) = {''a/b/c'', ''a/b/d'', ''a/e''} \<longrightarrow>
      listFiles ''a/'' ''/'' (run calls (BackupCoordinationLocal_init r)) = [''b'', ''e''])"
proof -
  have general: "listFiles pre terminator (run calls (BackupCoordinationLocal_init r)) =
     remdups_adj (map (path_segment pre terminator)
       (filter (\<lambda>name. starts_with name pre)
          (sorted_list_of_set (set (registered_names calls)))))" for pre terminator
    unfolding listFiles_sorted[OF reachable_sorted] reachable_names_sorted_list ..
  have example: "listFiles ''a/'' ''/'' (run calls (BackupCoordinationLocal_init r)) = [''b'', ''e'']"
    if names: "set (registered_names calls) = {''a/b/c'', ''a/b/d'', ''a/e''}"
  proof -
    have "sorted_list_of_set (set [''a/b/c'', ''a/b/d'', ''a/e'']) = [''a/b/c'', ''a/b/d'', ''a/e'']"
      by (rule sorted_list_of_set.idem_if_sorted_distinct) simp_all
    then have "sorted_list_of_set (set (registered_names calls)) = [''a/b/c'', ''a/b/d'', ''a/e'']"
      unfolding names by simp
    then show ?thesis
      unfolding general by (simp add: starts_with_def path_segment_def)
  qed
  from general example show ?thesis by blast
qed

theorem listFiles_segments_witness:
  "set (registered_names
     [AddFile \<lparr>file_name = ''a/e'', size_bytes = 1, checksum = 1, base_size = 0, archive_suffix = []\<rparr>,
      AddFile \<lparr>file_name = ''a/b/d'', size_bytes = 2, checksum = 2, base_size = 0, archive_suffix = []\<rparr>,
      AddFile \<lparr>file_name = ''a/b/c'', size_bytes = 0, checksum = 0, base_size = 0, archive_suffix = []\<rparr>
        :: unit call]) = {''a/b/c'', ''a/b/d'', ''a/e''} \<and>
   listFiles ''a/'' ''/''
     (run [AddFile \<lparr>file_name = ''a/e'', size_bytes = 1, checksum = 1, base_size = 0, archive_suffix = []\<rparr>,
           AddFile \<lparr>file_name = ''a/b/d'', size_bytes = 2, checksum = 2, base_size = 0, archive_suffix = []\<rparr>,
           AddFile \<lparr>file_name = ''a/b/c'', size_bytes = 0, checksum = 0, base_size = 0, archive_suffix = []\<rparr>]
        (BackupCoordinationLocal_init ())) = [''b'', ''e'']"
proof -
  have n: "set (registered_names
     [AddFile \<lparr>file_name = ''a/e'', size_bytes = 1, checksum = 1, base_size = 0, archive_suffix = []\<rparr>,
      AddFile \<lparr>file_name = ''a/b/d'', size_bytes = 2, checksum = 2, base_size = 0, archive_suffix = []\<rparr>,
      AddFile \<lparr>file_name = ''a/b/c'', size_bytes = 0, checksum = 0, base_size = 0, archive_suffix = []\<rparr>
        :: unit call]) = {''a/b/c'', ''a/b/d'', ''a/e''}"
    by auto
  from listFiles_segments [where r = "()" and calls =
     "[AddFile \<lparr>file_name = ''a/e'', size_bytes = 1, checksum = 1, base_size = 0, archive_suffix = []\<rparr>,
      AddFile \<lparr>file_name = ''a/b/d'', size_bytes = 2, checksum = 2, base_size = 0, archive_suffix = []\<rparr>,
      AddFile \<lparr>file_name = ''a/b/c'', size_bytes = 0, checksum = 0, base_size = 0, archive_suffix = []\<rparr>]"] n
  show ?thesis by blast
qed

text \<open>
  The claim as it is written, with a result free of duplicates, fails: a name that ends with
  a segment and a name that continues the same segment with the terminator need not be
  neighbours in the order of the names, and only neighbours are compared.
\<close>

theorem listFiles_distinct_counterexample:
  "listFiles ''a/'' ''/''
     (run [AddFile \<lparr>file_name = ''a/b'', size_bytes = 1, checksum = 1, base_size = 0, archive_suffix = []\<rparr>,
           AddFile \<lparr>file_name = ''a/b!'', size_bytes = 2, checksum = 2, base_size = 0, archive_suffix = []\<rparr>,
           AddFile \<lparr>file_name = ''a/b/c'', size_bytes = 3, checksum = 3, base_size = 0, archive_suffix = []\<rparr>]
        (BackupCoordinationLocal_init ())) = [''b'', ''b!'', ''b''] \<and>
   \<not> distinct [''b'', ''b!'', ''b'']"
  by (simp add: listFiles_def lower_bound_def run_def addFileInfo_def Let_def try_emplace_def
      BackupCoordinationLocal_init_def starts_with_def str_find_def substr_def upt_rec)

section \<open>Archive suffixes\<close>

declare to_decimal.simps [simp del]

lemma digit_value_digit_char: "d < 10 \<Longrightarrow> digit_value (digit_char d) = d"
proof -
  assume "d < 10"
  then have "d \<in> {0, 1, 2, 3, 4, 5, 6, 7, 8, 9}" by auto
  then show ?thesis
    by (elim insertE emptyE) (simp_all add: digit_value_def digit_char_def)
qed

lemma decimal_value_snoc: "decimal_value (s @ [c]) = 10 * decimal_value s + digit_value c"
  by (simp add: decimal_value_def)

lemma decimal_value_to_decimal: "decimal_value (to_decimal n) = n"
proof (induction n rule: to_decimal.induct)
  case (1 n)
  show ?case
  proof (cases "n < 10")
    case True
    then show ?thesis
      by (subst to_decimal.simps) (simp add: decimal_value_def digit_value_digit_char)
  next
    case False
    have "decimal_value (to_decimal n) =
            10 * decimal_value (to_decimal (n div 10)) + digit_value (digit_char (n mod 10))"
      using False by (subst to_decimal.simps) (simp add: decimal_value_snoc)
    also have "\<dots> = 10 * (n div 10) + n mod 10"
      using "1.IH"[OF False] by (simp add: digit_value_digit_char)
    also have "\<dots> = n" by simp
    finally show ?thesis .
  qed
qed

lemma length_to_decimal:
  "length (to_decimal n) = (if n < 10 then 1 else Suc (length (to_decimal (n div 10))))"
  by (subst to_decimal.simps) simp

lemma length_to_decimal_pos: "0 < length (to_decimal n)"
  by (subst length_to_decimal) simp

lemma length_to_decimal_small: "n < 1000 \<Longrightarrow> length (to_decimal n) \<le> 3"
proof -
  assume n: "n < 1000"
  then have a: "n div 10 < 100" and b: "n div 10 div 10 < 10" by simp_all
  show ?thesis
    unfolding length_to_decimal[of n] length_to_decimal[of "n div 10"]
      length_to_decimal[of "n div 10 div 10"]
    using b by simp
qed

lemma length_to_decimal_large: "1000 \<le> n \<Longrightarrow> 3 < length (to_decimal n)"
proof -
  assume n: "1000 \<le> n"
  then have a: "\<not> n < 10" and b: "\<not> n div 10 < 10" and c: "\<not> n div 10 div 10 < 10"
    by simp_all
  show ?thesis
    unfolding length_to_decimal[of n] length_to_decimal[of "n div 10"]
      length_to_decimal[of "n div 10 div 10"]
    using a b c length_to_decimal_pos[of "n div 10 div 10 div 10"] by simp
qed

lemma decimal_value_zeros: "decimal_value (replicate k CHR ''0'' @ s) = decimal_value s"
proof -
  have "foldl (\<lambda>v c. 10 * v + digit_value c) 0 (replicate k CHR ''0'') = 0"
    by (induction k) (simp_all add: digit_value_def)
  then show ?thesis by (simp add: decimal_value_def)
qed

lemma decimal_value_format_03: "decimal_value (format_03 n) = n"
  by (simp add: format_03_def decimal_value_zeros decimal_value_to_decimal)

lemma format_03_small: "n < 1000 \<Longrightarrow> length (format_03 n) = 3"
  using length_to_decimal_small[of n] by (simp add: format_03_def)

lemma format_03_large: "1000 \<le> n \<Longrightarrow> format_03 n = to_decimal n"
  using length_to_decimal_large[of n] by (simp add: format_03_def)

lemma format_03_examples:
  "format_03 1 = ''001''" "format_03 2 = ''002''" "format_03 42 = ''042''"
  "format_03 999 = ''999''" "format_03 1000 = ''1000''"
  by (simp_all add: format_03_def to_decimal.simps digit_char_def numeral_2_eq_2)


lemma getNextArchiveSuffix_result:
  "fst (getNextArchiveSuffix st) = format_03 (unat (current_archive_suffix st + 1))"
  by (simp add: getNextArchiveSuffix_def Let_def)

lemma getNextArchiveSuffix_counter:
  "current_archive_suffix (snd (getNextArchiveSuffix st)) = current_archive_suffix st + 1"
  by (simp add: getNextArchiveSuffix_def Let_def)

lemma getNextArchiveSuffix_log:
  "archive_suffixes (snd (getNextArchiveSuffix st)) =
     archive_suffixes st @ [fst (getNextArchiveSuffix st)]"
  by (simp add: getNextArchiveSuffix_def Let_def)

lemma length_issued: "length (issued calls st) = suffix_calls calls"
proof (induction calls arbitrary: st)
  case Nil
  then show ?case by simp
next
  case (Cons c calls)
  then show ?case by (cases c) simp_all
qed

lemma issued_nth:
  "i < suffix_calls calls \<Longrightarrow>
     issued calls st ! i = format_03 (unat (current_archive_suffix st + of_nat (Suc i)))"
proof (induction calls arbitrary: st i)
  case Nil
  then show ?case by simp
next
  case (Cons c calls)
  show ?case
  proof (cases c)
    case (AddFile fi)
    with Cons show ?thesis by (simp add: addFileInfo_frame)
  next
    case (UpdateFile fi)
    with Cons show ?thesis by (simp add: updateFileInfo_frame)
  next
    case (TrackerCall f)
    with Cons show ?thesis by simp
  next
    case NextArchiveSuffix
    show ?thesis
    proof (cases i)
      case 0
      then show ?thesis by (simp add: NextArchiveSuffix getNextArchiveSuffix_result)
    next
      case (Suc j)
      with Cons.prems have "j < suffix_calls calls" by (simp add: NextArchiveSuffix)
      from Cons.IH[OF this, of "snd (getNextArchiveSuffix st)"] show ?thesis
        by (simp add: NextArchiveSuffix Suc getNextArchiveSuffix_counter add.assoc)
    qed
  qed
qed

lemma run_archive_suffixes:
  "archive_suffixes (run calls st) = archive_suffixes st @ issued calls st"
proof (induction calls arbitrary: st)
  case Nil
  then show ?case by (simp add: run_Nil)
next
  case (Cons c calls)
  show ?case
  proof (cases c)
    case (AddFile fi)
    then show ?thesis by (simp add: run_Cons Cons.IH addFileInfo_frame)
  next
    case (UpdateFile fi)
    then show ?thesis by (simp add: run_Cons Cons.IH updateFileInfo_frame)
  next
    case (TrackerCall f)
    then show ?thesis by (simp add: run_Cons Cons.IH)
  next
    case NextArchiveSuffix
    then show ?thesis by (simp add: run_Cons Cons.IH getNextArchiveSuffix_log)
  qed
qed

lemma issued_init_nth:
  "i < suffix_calls calls \<Longrightarrow>
     issued calls (BackupCoordinationLocal_init r) ! i = format_03 (Suc i mod 2 ^ 64)"
proof -
  assume "i < suffix_calls calls"
  from issued_nth[OF this, of "BackupCoordinationLocal_init r"]
  have "issued calls (BackupCoordinationLocal_init r) ! i =
          format_03 (unat (of_nat (Suc i) :: 64 word))"
    by (simp add: BackupCoordinationLocal_init_def)
  then show ?thesis by (simp only: unat_of_nat) simp
qed

lemma issued_init_in_range:
  assumes "suffix_calls calls < 2 ^ 64"
  shows "issued calls (BackupCoordinationLocal_init r) = map format_03 [1 ..< Suc (suffix_calls calls)]"
proof (rule nth_equalityI)
  show "length (issued calls (BackupCoordinationLocal_init r)) =
          length (map format_03 [1 ..< Suc (suffix_calls calls)])"
    by (simp add: length_issued)
next
  fix i
  assume "i < length (issued calls (BackupCoordinationLocal_init r))"
  then have i: "i < suffix_calls calls" by (simp add: length_issued)
  with assms have "Suc i < 2 ^ 64" by simp
  then have "Suc i mod 2 ^ 64 = Suc i" by (rule mod_less)
  with issued_init_nth[OF i, of r] have "issued calls (BackupCoordinationLocal_init r) ! i = format_03 (Suc i)"
    by simp
  moreover have "map format_03 [1 ..< Suc (suffix_calls calls)] ! i = format_03 (Suc i)"
    using i by (simp del: upt_Suc)
  ultimately show "issued calls (BackupCoordinationLocal_init r) ! i =
      map format_03 [1 ..< Suc (suffix_calls calls)] ! i" by simp
qed


text \<open>
  Claim C5. The counter is an unsigned 64-bit integer, the numeric type by whose range the
  allocator is bounded, and every call that returns appends a string to the log. For every
  number \<open>N\<close> of calls of \<^verbatim>\<open>getNextArchiveSuffix\<close> within that range, the calls return
  \<open>N\<close> distinct suffixes, which are the numbers \<open>1, \<dots>, N\<close> in this order, each written in
  decimal with zeros in front up to three digits (\<open>001\<close>, \<open>002\<close>, \<dots>) and with all its
  digits, more than three, from 1000 on; no suffix is returned twice, and
  \<^verbatim>\<open>getAllArchiveSuffixes\<close> returns exactly the suffixes returned so far, in the order of
  the calls.
\<close>

theorem getNextArchiveSuffix_sequence:
  assumes N: "suffix_calls calls = N" and range: "N < 2 ^ 64"
  shows "length (issued calls (BackupCoordinationLocal_init r)) = N \<and>
         distinct (issued calls (BackupCoordinationLocal_init r)) \<and>
         issued calls (BackupCoordinationLocal_init r) = map format_03 [1 ..< Suc N] \<and>
         map decimal_value (issued calls (BackupCoordinationLocal_init r)) = [1 ..< Suc N] \<and>
         sorted_wrt (<) (map decimal_value (issued calls (BackupCoordinationLocal_init r))) \<and>
         (\<forall>i < N.
            (Suc i < 1000 \<longrightarrow> length (issued calls (BackupCoordinationLocal_init r) ! i) = 3) \<and>
            (1000 \<le> Suc i \<longrightarrow>
               issued calls (BackupCoordinationLocal_init r) ! i = to_decimal (Suc i) \<and>
               3 < length (issued calls (BackupCoordinationLocal_init r) ! i))) \<and>
         format_03 1 = ''001'' \<and> format_03 2 = ''002'' \<and> format_03 999 = ''999'' \<and>
         format_03 1000 = ''1000'' \<and>
         getAllArchiveSuffixes (run calls (BackupCoordinationLocal_init r)) =
           issued calls (BackupCoordinationLocal_init r)"
proof -
  let ?out = "issued calls (BackupCoordinationLocal_init r)"
  have out: "?out = map format_03 [1 ..< Suc N]"
    using issued_init_in_range[of calls r] range unfolding N by simp
  have len: "length ?out = N" by (simp add: length_issued N)
  have val: "map decimal_value ?out = [1 ..< Suc N]"
    unfolding out by (simp add: comp_def decimal_value_format_03 del: upt_Suc)
  have "distinct (map decimal_value ?out)" unfolding val by simp
  then have dist: "distinct ?out" by (simp add: distinct_map)
  have inc: "sorted_wrt (<) (map decimal_value ?out)"
    unfolding val by (simp del: upt_Suc)
  have nth: "?out ! i = format_03 (Suc i)" if "i < N" for i
    using that unfolding out by (simp del: upt_Suc)
  have width: "(Suc i < 1000 \<longrightarrow> length (?out ! i) = 3) \<and>
      (1000 \<le> Suc i \<longrightarrow> ?out ! i = to_decimal (Suc i) \<and> 3 < length (?out ! i))"
    if "i < N" for i
    unfolding nth[OF that]
    using format_03_small[of "Suc i"] format_03_large[of "Suc i"]
      length_to_decimal_large[of "Suc i"]
    by auto
  have all: "getAllArchiveSuffixes (run calls (BackupCoordinationLocal_init r)) = ?out"
    by (simp add: getAllArchiveSuffixes_def run_archive_suffixes BackupCoordinationLocal_init_def)
  from len dist out val inc width all format_03_examples show ?thesis by blast
qed

theorem getNextArchiveSuffix_sequence_witness:
  "suffix_calls
     [NextArchiveSuffix,
      AddFile \<lparr>file_name = ''a'', size_bytes = 5, checksum = 7, base_size = 0, archive_suffix = []\<rparr>,
      NextArchiveSuffix, NextArchiveSuffix :: unit call] = 3 \<and>
   (3 :: nat) < 2 ^ 64 \<and>
   issued
     [NextArchiveSuffix,
      AddFile \<lparr>file_name = ''a'', size_bytes = 5, checksum = 7, base_size = 0, archive_suffix = []\<rparr>,
      NextArchiveSuffix, NextArchiveSuffix]
     (BackupCoordinationLocal_init ()) = [''001'', ''002'', ''003''] \<and>
   getAllArchiveSuffixes
     (run [NextArchiveSuffix,
           AddFile \<lparr>file_name = ''a'', size_bytes = 5, checksum = 7, base_size = 0, archive_suffix = []\<rparr>,
           NextArchiveSuffix, NextArchiveSuffix]
        (BackupCoordinationLocal_init ())) = [''001'', ''002'', ''003'']"
proof -
  have n: "suffix_calls
     [NextArchiveSuffix,
      AddFile \<lparr>file_name = ''a'', size_bytes = 5, checksum = 7, base_size = 0, archive_suffix = []\<rparr>,
      NextArchiveSuffix, NextArchiveSuffix :: unit call] = 3"
    by simp
  have r: "(3 :: nat) < 2 ^ 64" by simp
  have u: "[1 ..< Suc 3] = [1, 2, 3]" by (simp add: upt_rec)
  have f: "map format_03 [1, 2, 3] = [''001'', ''002'', ''003'']"
    by (simp add: format_03_def to_decimal.simps digit_char_def numeral_2_eq_2)
  from getNextArchiveSuffix_sequence [OF n r, of "()"] n r show ?thesis
    unfolding u f by simp
qed

end
